theory Spec2Isabelle
  imports Complex_Main
begin

section \<open>NoteCap: text normalisation, tagging and similarity matching\<close>

text \<open>
  A shallow embedding of the text functions of \<^verbatim>\<open>src/main.ts\<close> (class \<^verbatim>\<open>NoteCap\<close>):
  \<^verbatim>\<open>cleanupText\<close>, \<^verbatim>\<open>formatTag\<close>, \<^verbatim>\<open>isCommonWord\<close>, \<^verbatim>\<open>generateTags\<close>,
  \<^verbatim>\<open>calculateSimilarity\<close>, \<^verbatim>\<open>findRelatedNotes\<close>, \<^verbatim>\<open>parseLLMResponse\<close>,
  \<^verbatim>\<open>enhanceWithLLM\<close> and \<^verbatim>\<open>processWithTesseract\<close>.  The recognition engine and the
  vault are arguments of the functions that call them.

  A JavaScript string is a sequence of UTF-16 code units.  It is modelled as a
  \<^typ>\<open>string\<close>, where each \<^typ>\<open>char\<close> stands for the code unit of the same number,
  so the model covers the strings whose code units lie in U+0000 .. U+00FF.  The
  character classes below are the restrictions of the JavaScript ones to that range.
\<close>

subsection \<open>Characters\<close>

definition charCode :: "char \<Rightarrow> nat" where
  "charCode c = of_char c"

text \<open>The class \<^verbatim>\<open>\s\<close>, which is also the set that \<^verbatim>\<open>trim\<close> removes: TAB, LF, VT, FF,
  CR, SPACE and NBSP.\<close>

definition isSpace :: "char \<Rightarrow> bool" where
  "isSpace c = (charCode c \<in> {0x09, 0x0A, 0x0B, 0x0C, 0x0D, 0x20, 0xA0})"

text \<open>\<^verbatim>\<open>[.,!?;:]\<close>\<close>

definition isPunct :: "char \<Rightarrow> bool" where
  "isPunct c = (c \<in> {CHR ''.'', CHR '','', CHR ''!'', CHR ''?'', CHR '';'', CHR '':''})"

text \<open>\<^verbatim>\<open>[a-z0-9]\<close>\<close>

definition isAlnum :: "char \<Rightarrow> bool" where
  "isAlnum c = ((0x61 \<le> charCode c \<and> charCode c \<le> 0x7A) \<or> (0x30 \<le> charCode c \<and> charCode c \<le> 0x39))"

text \<open>\<^verbatim>\<open>[a-z0-9-]\<close>\<close>

definition isTagChar :: "char \<Rightarrow> bool" where
  "isTagChar c = (isAlnum c \<or> c = CHR ''-'')"

text \<open>\<^verbatim>\<open>[\x20-\x7E\n]\<close>\<close>

definition isPrintable :: "char \<Rightarrow> bool" where
  "isPrintable c = ((0x20 \<le> charCode c \<and> charCode c \<le> 0x7E) \<or> c = CHR 0x0A)"

text \<open>\<^verbatim>\<open>toLowerCase\<close> on one code unit below U+0100: the letters A--Z and the
  Latin-1 capitals U+00C0 .. U+00DE other than the multiplication sign move up by 32.\<close>

definition lowerChar :: "char \<Rightarrow> char" where
  "lowerChar c =
     (if (0x41 \<le> charCode c \<and> charCode c \<le> 0x5A) \<or> (0xC0 \<le> charCode c \<and> charCode c \<le> 0xDE \<and> charCode c \<noteq> 0xD7)
      then char_of (charCode c + 32) else c)"

definition toLowerCase :: "string \<Rightarrow> string" where
  "toLowerCase s = map lowerChar s"

subsection \<open>String primitives\<close>

text \<open>\<^verbatim>\<open>s.trim()\<close>\<close>

definition trim :: "string \<Rightarrow> string" where
  "trim s = rev (dropWhile isSpace (rev (dropWhile isSpace s)))"

text \<open>\<^verbatim>\<open>s.startsWith(p)\<close>\<close>

definition startsWith :: "string \<Rightarrow> string \<Rightarrow> bool" where
  "startsWith p s = (take (length p) s = p)"

text \<open>
  \<^verbatim>\<open>s.replace(/[C]+/g, f)\<close> for a character class \<open>C\<close>: every maximal run of
  characters of the class is replaced by \<open>f run\<close>.
\<close>

function replaceRuns :: "(char \<Rightarrow> bool) \<Rightarrow> (string \<Rightarrow> string) \<Rightarrow> string \<Rightarrow> string" where
  "replaceRuns C f [] = []"
| "replaceRuns C f (c # cs) =
     (if C c then f (c # takeWhile C cs) @ replaceRuns C f (dropWhile C cs)
      else c # replaceRuns C f cs)"
  by pat_completeness auto
termination
  by (relation "measure (\<lambda>(C, f, s). length s)")
     (auto simp: less_Suc_eq_le length_dropWhile_le)

text \<open>
  \<^verbatim>\<open>s.split(/\s+/)\<close>: the pieces between the maximal runs of white space.  A run at
  the start or at the end leaves an empty piece there, and the empty string gives one
  empty piece.
\<close>

function splitWs :: "string \<Rightarrow> string list" where
  "splitWs s =
     (case dropWhile (\<lambda>c. \<not> isSpace c) s of
        [] \<Rightarrow> [s]
      | c # r \<Rightarrow> takeWhile (\<lambda>c. \<not> isSpace c) s # splitWs (dropWhile isSpace r))"
  by pat_completeness auto
termination
proof (relation "measure length", simp)
  fix s :: string and c r
  assume "dropWhile (\<lambda>c. \<not> isSpace c) s = c # r"
  then have "length s \<ge> Suc (length r)"
    by (metis length_Cons length_dropWhile_le)
  moreover have "length (dropWhile isSpace r) \<le> length r"
    by (rule length_dropWhile_le)
  ultimately show "(dropWhile isSpace r, s) \<in> measure length"
    by simp
qed

declare splitWs.simps [simp del]

subsection \<open>JavaScript numbers and sets\<close>

text \<open>
  The result of \<^verbatim>\<open>a / b\<close> on two set sizes.  JavaScript does not throw on a zero
  divisor: \<^verbatim>\<open>0 / 0\<close> is \<^verbatim>\<open>NaN\<close> and \<^verbatim>\<open>n / 0\<close> is \<^verbatim>\<open>Infinity\<close>.  A finite quotient
  is kept exact, as a rational.
\<close>

datatype jsnum = NaN | PosInfinity | Num rat

definition js_div :: "nat \<Rightarrow> nat \<Rightarrow> jsnum" where
  "js_div a b =
     (if b = 0 then (if a = 0 then NaN else PosInfinity)
      else Num (of_nat a / of_nat b))"

text \<open>\<^verbatim>\<open>x > r\<close>; every comparison with \<^verbatim>\<open>NaN\<close> is false.\<close>

fun js_gt :: "jsnum \<Rightarrow> rat \<Rightarrow> bool" where
  "js_gt NaN r = False"
| "js_gt PosInfinity r = True"
| "js_gt (Num q) r = (r < q)"

text \<open>A \<^verbatim>\<open>Set\<close> keeps its elements in insertion order, each once.\<close>

definition set_add :: "'a list \<Rightarrow> 'a \<Rightarrow> 'a list" where
  "set_add s x = (if x \<in> set s then s else s @ [x])"

definition new_Set :: "'a list \<Rightarrow> 'a list" where
  "new_Set xs = foldl set_add [] xs"

subsection \<open>calculateSimilarity\<close>

definition calculateSimilarity :: "string \<Rightarrow> string \<Rightarrow> jsnum" where
  "calculateSimilarity text1 text2 =
     (let words1 = new_Set (splitWs (toLowerCase text1));
          words2 = new_Set (splitWs (toLowerCase text2));
          intersection = new_Set (filter (\<lambda>x. x \<in> set words2) words1);
          union = new_Set (words1 @ words2)
      in js_div (length intersection) (length union))"

subsection \<open>More string primitives\<close>

text \<open>\<^verbatim>\<open>s.replace(/[C]/g, r)\<close>: every character of the class is replaced by \<open>r\<close>.\<close>

definition replaceEach :: "(char \<Rightarrow> bool) \<Rightarrow> string \<Rightarrow> string \<Rightarrow> string" where
  "replaceEach C r s = concat (map (\<lambda>c. if C c then r else [c]) s)"

text \<open>\<^verbatim>\<open>s.replace(p, r)\<close> with a string pattern: the first occurrence only.\<close>

fun replaceFirst :: "string \<Rightarrow> string \<Rightarrow> string \<Rightarrow> string" where
  "replaceFirst p r [] = (if p = [] then r else [])"
| "replaceFirst p r (c # cs) =
     (if startsWith p (c # cs) then r @ drop (length p) (c # cs)
      else c # replaceFirst p r cs)"

text \<open>
  \<^verbatim>\<open>s.split(sep)\<close> with a string separator: the pieces between the occurrences of
  \<open>sep\<close>, found from left to right; an empty separator splits into code units.
\<close>

function splitAcc :: "string \<Rightarrow> string \<Rightarrow> string \<Rightarrow> string list" where
  "splitAcc sep acc [] = [rev acc]"
| "splitAcc sep acc (c # cs) =
     (if sep \<noteq> [] \<and> startsWith sep (c # cs)
      then rev acc # splitAcc sep [] (drop (length sep) (c # cs))
      else splitAcc sep (c # acc) cs)"
  by pat_completeness auto
termination
  by (relation "measure (\<lambda>(sep, acc, s). length s)") auto

definition splitStr :: "string \<Rightarrow> string \<Rightarrow> string list" where
  "splitStr sep s = (if sep = [] then map (\<lambda>c. [c]) s else splitAcc sep [] s)"

subsection \<open>cleanupText\<close>

text \<open>
  The seven passes of \<^verbatim>\<open>cleanupText\<close>, innermost first.  In
  \<^verbatim>\<open>replace(/([.,!?;:])+/g, "$1")\<close> the group is repeated, so \<^verbatim>\<open>$1\<close> is the last
  character of the run that matched.
\<close>

definition cleanupText :: "string \<Rightarrow> string" where
  "cleanupText text =
     trim
      (replaceRuns isSpace (\<lambda>run. '' '')
        (replaceEach (\<lambda>c. \<not> isPrintable c) []
          (replaceEach (\<lambda>c. c \<in> {CHR ''0'', CHR ''O''}) ''o''
            (replaceEach (\<lambda>c. c \<in> {CHR ''1'', CHR ''I'', CHR ''l''}) ''l''
              (replaceEach (\<lambda>c. c = CHR ''|'') ''I''
                (replaceRuns isPunct (\<lambda>run. [last run]) text))))))"

subsection \<open>formatTag, isCommonWord and generateTags\<close>

text \<open>\<^verbatim>\<open>s.replace(/^-|-$/g, "")\<close>: a hyphen at the start is removed, then a hyphen at
  the end of what is left.\<close>

definition stripEdgeHyphens :: "string \<Rightarrow> string" where
  "stripEdgeHyphens s =
     (let s1 = (case s of [] \<Rightarrow> [] | c # cs \<Rightarrow> if c = CHR ''-'' then cs else s)
      in if s1 \<noteq> [] \<and> last s1 = CHR ''-'' then butlast s1 else s1)"

definition formatTag :: "string \<Rightarrow> string" where
  "formatTag tag =
     stripEdgeHyphens
      (replaceRuns (\<lambda>c. c = CHR ''-'') (\<lambda>run. ''-'')
        (replaceEach (\<lambda>c. \<not> isTagChar c) []
          (replaceRuns isSpace (\<lambda>run. ''-'')
            (toLowerCase tag))))"

definition isCommonWord :: "string \<Rightarrow> bool" where
  "isCommonWord word =
     (toLowerCase word \<in> set
       [''the'', ''and'', ''that'', ''have'', ''for'', ''not'', ''with'', ''you'', ''this'',
        ''but'', ''his'', ''from'', ''they'', ''say'', ''her'', ''she'', ''will'', ''one'',
        ''all'', ''would'', ''there'', ''their'', ''what'', ''out'', ''about'', ''who'',
        ''get'', ''which'', ''when'', ''make'', ''can'', ''like'', ''time'', ''just'',
        ''him'', ''know'', ''take'', ''into'', ''year'', ''your'', ''good'', ''some'',
        ''could'', ''them'', ''see'', ''other'', ''than'', ''then'', ''now'', ''look'',
        ''only'', ''come'', ''its'', ''over'', ''think'', ''also'', ''back'', ''after'',
        ''use'', ''two'', ''how'', ''our'', ''work'', ''first'', ''well'', ''way'', ''even'',
        ''new'', ''want'', ''because'', ''any'', ''these'', ''give'', ''day'', ''most'',
        ''cant''])"

text \<open>The shorter list local to \<^verbatim>\<open>generateTags\<close>.\<close>

definition commonWords :: "string list" where
  "commonWords =
     [''the'', ''and'', ''that'', ''have'', ''for'', ''not'', ''with'', ''you'', ''this'',
      ''but'', ''his'', ''from'', ''they'', ''say'', ''her'', ''she'', ''will'', ''one'',
      ''all'', ''would'', ''there'', ''their'', ''what'', ''out'', ''about'', ''who'',
      ''get'', ''which'', ''when'', ''make'', ''can'', ''like'', ''time'', ''just'',
      ''him'', ''know'', ''take'']"

text \<open>
  One round of the first loop, at index \<open>i\<close>.  The two guards are the source's, on
  JavaScript numbers, so the subtractions are on integers; under them every index read
  is inside \<open>words\<close>.
\<close>

definition phraseStep :: "string list \<Rightarrow> string list \<Rightarrow> nat \<Rightarrow> string list" where
  "phraseStep words tags i =
     (let singleWord = formatTag (words ! i);
          tags1 = (if length singleWord > 3 \<and> \<not> isCommonWord singleWord
                   then set_add tags singleWord else tags);
          tags2 = (if int i < int (length words) - 1
                   then (let twoWords = formatTag (words ! i @ '' '' @ words ! (i + 1))
                         in if length twoWords > 3 then set_add tags1 twoWords else tags1)
                   else tags1);
          tags3 = (if int i < int (length words) - 2
                   then (let threeWords =
                               formatTag (words ! i @ '' '' @ words ! (i + 1) @ '' '' @ words ! (i + 2))
                         in if length threeWords > 3 then set_add tags2 threeWords else tags2)
                   else tags2)
      in tags3)"

definition wordStep :: "string list \<Rightarrow> string \<Rightarrow> string list" where
  "wordStep tags word = (if word \<notin> set commonWords then set_add tags word else tags)"

definition tagWords :: "string \<Rightarrow> string list" where
  "tagWords text =
     filter (\<lambda>word. length word > 3)
       (map (\<lambda>word. replaceEach (\<lambda>c. \<not> isAlnum c) [] word)
         (splitWs (toLowerCase text)))"

definition generateTags :: "string \<Rightarrow> string list" where
  "generateTags text =
     (let words = tagWords text;
          tags = foldl (phraseStep words) [] [0 ..< length words]
      in foldl wordStep tags words)"

subsection \<open>parseLLMResponse and enhanceWithLLM\<close>

record LLMResponse =
  llm_text :: string
  llm_tags :: "string list option"
  llm_summary :: "string option"
  llm_confidence :: rat

definition parseTags :: "string \<Rightarrow> string list" where
  "parseTags sect =
     filter (\<lambda>tag. length tag > 0)
       (map (\<lambda>tag. toLowerCase (trim tag))
         (splitStr '','' (trim (replaceFirst ''TAGS:'' [] sect))))"

definition parseSection :: "LLMResponse \<Rightarrow> string \<Rightarrow> LLMResponse" where
  "parseSection result sect =
     (if startsWith ''TEXT:'' sect
      then result\<lparr>llm_text := trim (replaceFirst ''TEXT:'' [] sect)\<rparr>
      else if startsWith ''TAGS:'' sect
      then result\<lparr>llm_tags := Some (parseTags sect)\<rparr>
      else if startsWith ''SUMMARY:'' sect
      then result\<lparr>llm_summary := Some (trim (replaceFirst ''SUMMARY:'' [] sect))\<rparr>
      else result)"

definition parseLLMResponse :: "string \<Rightarrow> LLMResponse" where
  "parseLLMResponse response =
     foldl parseSection
       \<lparr>llm_text = [], llm_tags = None, llm_summary = None, llm_confidence = 9 / 10\<rparr>
       (splitStr [CHR 0x0A, CHR 0x0A] response)"

definition enhanceWithLLM :: "string \<Rightarrow> LLMResponse" where
  "enhanceWithLLM text =
     \<lparr>llm_text = text, llm_tags = None, llm_summary = None, llm_confidence = 9 / 10\<rparr>"

subsection \<open>processWithTesseract\<close>

datatype PSM = SINGLE_BLOCK | SINGLE_LINE | SPARSE_TEXT

datatype error = OcrNotInitialized | ReadError

text \<open>
  The engine is a function of the page-segmentation mode: \<open>None\<close> when anything inside
  the \<^verbatim>\<open>try\<close> block throws, \<open>Some t\<close> when the job returns \<^verbatim>\<open>data.text = t\<close>.
  The state of the loop is its two variables and the modes written to the console by
  the \<^verbatim>\<open>catch\<close> block.
\<close>

record ocr_state =
  bestResult :: string
  maxWordCount :: nat
  console :: "PSM list"

definition psmModes :: "PSM list" where
  "psmModes = [SINGLE_BLOCK, SINGLE_LINE, SPARSE_TEXT]"

definition attempt :: "(PSM \<Rightarrow> string option) \<Rightarrow> ocr_state \<Rightarrow> PSM \<Rightarrow> ocr_state" where
  "attempt recognize st mode =
     (case recognize mode of
        None \<Rightarrow> st\<lparr>console := console st @ [mode]\<rparr>
      | Some data_text \<Rightarrow>
          (let text = trim data_text;
               wordCount = length (splitWs text)
           in if wordCount > maxWordCount st
              then st\<lparr>maxWordCount := wordCount, bestResult := text\<rparr>
              else st))"

text \<open>The loop, over a list of modes; the source runs it over \<open>psmModes\<close>.\<close>

definition ocrLoop :: "(PSM \<Rightarrow> string option) \<Rightarrow> PSM list \<Rightarrow> ocr_state" where
  "ocrLoop recognize modes =
     foldl (attempt recognize) \<lparr>bestResult = [], maxWordCount = 0, console = []\<rparr> modes"

text \<open>The first argument says whether \<^verbatim>\<open>this.scheduler\<close> is set.  The result is the
  console and either the error thrown or the string returned.\<close>

definition processWithTesseract ::
  "bool \<Rightarrow> (PSM \<Rightarrow> string option) \<Rightarrow> PSM list \<times> (error + string)" where
  "processWithTesseract scheduler recognize =
     (if \<not> scheduler then ([], Inl OcrNotInitialized)
      else (console (ocrLoop recognize psmModes),
            Inr (cleanupText (bestResult (ocrLoop recognize psmModes)))))"

subsection \<open>findRelatedNotes\<close>

record TFile =
  path :: string
  basename :: string

text \<open>
  \<open>read\<close> is \<^verbatim>\<open>this.app.vault.read\<close>: the content of a file, or the error of a
  rejected read, which leaves the loop.  The threshold \<^verbatim>\<open>0.3\<close> is the rational 3/10:
  the double nearest to a quotient of two set sizes exceeds the double nearest to 3/10
  exactly when the quotient exceeds 3/10, for every size a \<^verbatim>\<open>Set\<close> can have.
\<close>

fun relatedLoop ::
  "(TFile \<Rightarrow> error + string) \<Rightarrow> string \<Rightarrow> string list \<Rightarrow> TFile list \<Rightarrow> error + string list" where
  "relatedLoop read text relatedNotes [] = Inr relatedNotes"
| "relatedLoop read text relatedNotes (file # files) =
     (case read file of
        Inl e \<Rightarrow> Inl e
      | Inr content \<Rightarrow>
          relatedLoop read text
            (if js_gt (calculateSimilarity text content) (3 / 10)
             then relatedNotes @ [basename file] else relatedNotes)
            files)"

definition findRelatedNotes ::
  "bool \<Rightarrow> TFile list \<Rightarrow> (TFile \<Rightarrow> error + string) \<Rightarrow> string \<Rightarrow> error + string list" where
  "findRelatedNotes enableAutoBacklinks files read text =
     (if \<not> enableAutoBacklinks then Inr [] else relatedLoop read text [] files)"

subsection \<open>Auxiliary notions for the proofs\<close>

text \<open>No two neighbours in the list both satisfy \<open>Q\<close>.\<close>

fun noAdj :: "('a \<Rightarrow> bool) \<Rightarrow> 'a list \<Rightarrow> bool" where
  "noAdj Q (x # y # zs) = (\<not> (Q x \<and> Q y) \<and> noAdj Q (y # zs))"
| "noAdj Q zs = True"

text \<open>The three character repairs of \<^verbatim>\<open>cleanupText\<close> in one step, the characters they
  remove, and the characters a cleaned text is made of.\<close>

definition fixChar :: "char \<Rightarrow> char" where
  "fixChar c =
     (let c1 = (if c = CHR ''|'' then CHR ''I'' else c);
          c2 = (if c1 \<in> {CHR ''1'', CHR ''I'', CHR ''l''} then CHR ''l'' else c1)
      in if c2 \<in> {CHR ''0'', CHR ''O''} then CHR ''o'' else c2)"

definition confusable :: "char \<Rightarrow> bool" where
  "confusable c = (c \<in> {CHR ''|'', CHR ''1'', CHR ''I'', CHR ''0'', CHR ''O''})"

definition tidy :: "char \<Rightarrow> bool" where
  "tidy c = (\<not> confusable c \<and> isPrintable c \<and> (isSpace c \<longrightarrow> c = CHR '' ''))"

subsection \<open>The tag pattern\<close>

text \<open>
  The regular expression \<^verbatim>\<open>^[a-z0-9]+(-[a-z0-9]+)*$\<close>: a non-empty run of letters and
  digits, then either the end of the string or a hyphen followed by a match of the same
  expression.
\<close>

function tagRegex :: "string \<Rightarrow> bool" where
  "tagRegex s =
     (takeWhile isAlnum s \<noteq> [] \<and>
      (case dropWhile isAlnum s of
         [] \<Rightarrow> True
       | c # r \<Rightarrow> c = CHR ''-'' \<and> tagRegex r))"
  by pat_completeness auto
termination
proof (relation "measure length", simp)
  fix s :: string and c r
  assume "dropWhile isAlnum s = c # r"
  then have "Suc (length r) \<le> length s"
    by (metis length_Cons length_dropWhile_le)
  then show "(r, s) \<in> measure length"
    by simp
qed

declare tagRegex.simps [simp del]

text \<open>\<^verbatim>\<open>[-]\<close>\<close>

abbreviation isHyphen :: "char \<Rightarrow> bool" where
  "isHyphen c \<equiv> c = CHR ''-''"

text \<open>The last block of a response that starts with the prefix \<open>p\<close>, if there is one.\<close>

definition lastBlock :: "string \<Rightarrow> string list \<Rightarrow> string option" where
  "lastBlock p sections =
     (case rev (filter (startsWith p) sections) of [] \<Rightarrow> None | b # bs \<Rightarrow> Some b)"

text \<open>The outputs of the attempts that returned, in the order of the modes, as the
  engine gave them and trimmed.\<close>

definition outputs :: "(PSM \<Rightarrow> string option) \<Rightarrow> PSM list \<Rightarrow> string list" where
  "outputs recognize modes = List.map_filter recognize modes"

definition trimmedOutputs :: "(PSM \<Rightarrow> string option) \<Rightarrow> PSM list \<Rightarrow> string list" where
  "trimmedOutputs recognize modes = map trim (outputs recognize modes)"



subsection \<open>Example inputs\<close>

text \<open>An engine whose three attempts all fail, one whose outputs have 3, 7 and 5 words,
  and one whose outputs have 5 words each.\<close>

definition engineDown :: "PSM \<Rightarrow> string option" where
  "engineDown mode = None"



text \<open>A vault of three notes.  Against the text \<^verbatim>\<open>a b c\<close> their similarities are
  3/10, 3/5 and 1.\<close>

definition vaultFiles :: "TFile list" where
  "vaultFiles =
     [\<lparr>path = ''inbox/n1.md'', basename = ''n1''\<rparr>,
      \<lparr>path = ''n2.md'', basename = ''n2''\<rparr>,
      \<lparr>path = ''n3.md'', basename = ''n3''\<rparr>]"

definition vaultContent :: "TFile \<Rightarrow> string" where
  "vaultContent file =
     (if basename file = ''n1'' then ''a b c d e f g h i j''
      else if basename file = ''n2'' then ''a b c d e''
      else ''C b A'')"

definition vaultRead :: "TFile \<Rightarrow> error + string" where
  "vaultRead file = Inr (vaultContent file)"

subsection \<open>The best of a list of outputs\<close>

text \<open>
  Output \<open>k\<close> of the list has the highest word count and is the first with that
  count: no output has more words, and every earlier output has fewer.
\<close>

definition firstMax :: "string list \<Rightarrow> nat \<Rightarrow> bool" where
  "firstMax ts k \<longleftrightarrow>
     k < length ts \<and>
     (\<forall>j < length ts. length (splitWs (ts ! j)) \<le> length (splitWs (ts ! k))) \<and>
     (\<forall>j < k. length (splitWs (ts ! j)) < length (splitWs (ts ! k)))"

section \<open>Properties\<close>

subsection \<open>Sets and splitting\<close>

lemma set_foldl_set_add: "set (foldl set_add acc xs) = set acc \<union> set xs"
  by (induction xs arbitrary: acc) (auto simp: set_add_def)

lemma distinct_foldl_set_add: "distinct acc \<Longrightarrow> distinct (foldl set_add acc xs)"
  by (induction xs arbitrary: acc) (auto simp: set_add_def)

lemma set_new_Set: "set (new_Set xs) = set xs"
  by (simp add: new_Set_def set_foldl_set_add)

lemma distinct_new_Set: "distinct (new_Set xs)"
  by (simp add: new_Set_def distinct_foldl_set_add)

lemma length_new_Set: "length (new_Set xs) = card (set xs)"
  using distinct_card [OF distinct_new_Set, of xs] by (simp add: set_new_Set)

lemma splitWs_not_Nil: "splitWs s \<noteq> []"
  by (subst splitWs.simps) (simp split: list.splits)

lemma splitWs_Nil: "splitWs [] = [[]]"
  by (subst splitWs.simps) simp

lemma new_Set_single: "new_Set [x] = [x]"
  by (simp add: new_Set_def set_add_def)

subsection \<open>Similarity of two texts\<close>

text \<open>
  C1 (as stated): the similarity of two empty texts is 0.  It is not: splitting the
  empty string gives the one-element list holding the empty word, so both word sets are
  the singleton of the empty word and the quotient is 1 / 1.
\<close>

theorem calculateSimilarity_empty_counterexample:
  "calculateSimilarity [] [] \<noteq> Num 0"
  by (simp add: calculateSimilarity_def toLowerCase_def splitWs_Nil new_Set_def set_add_def
      js_div_def Let_def)

text \<open>
  C1 (amended): for two empty texts both word sets are the singleton of the empty word,
  the union has one element, and the result is 1; the division is not guarded.
\<close>

theorem calculateSimilarity_empty:
  "calculateSimilarity [] [] = Num 1"
  by (simp add: calculateSimilarity_def toLowerCase_def splitWs_Nil new_Set_def set_add_def
      js_div_def Let_def)

text \<open>
  C10: for every pair of texts the split of each text has at least one piece, the
  union of the word sets is not empty, and the result is a finite number between 0
  and 1.
\<close>

theorem calculateSimilarity_total:
  "splitWs (toLowerCase text1) \<noteq> [] \<and> splitWs (toLowerCase text2) \<noteq> [] \<and>
   new_Set (new_Set (splitWs (toLowerCase text1)) @ new_Set (splitWs (toLowerCase text2))) \<noteq> [] \<and>
   (\<exists>r. calculateSimilarity text1 text2 = Num r \<and> 0 \<le> r \<and> r \<le> 1)"
proof -
  let ?w1 = "new_Set (splitWs (toLowerCase text1))"
  let ?w2 = "new_Set (splitWs (toLowerCase text2))"
  let ?i = "new_Set (filter (\<lambda>x. x \<in> set ?w2) ?w1)"
  let ?u = "new_Set (?w1 @ ?w2)"
  have ne1: "splitWs (toLowerCase text1) \<noteq> []" and ne2: "splitWs (toLowerCase text2) \<noteq> []"
    by (rule splitWs_not_Nil)+
  have "set ?u \<noteq> {}"
    using ne1 by (simp add: set_new_Set)
  then have une: "?u \<noteq> []"
    by auto
  then have upos: "0 < length ?u"
    by simp
  have le: "length ?i \<le> length ?u"
    unfolding length_new_Set by (rule card_mono) (auto simp: set_new_Set)
  have val: "calculateSimilarity text1 text2 = Num (of_nat (length ?i) / of_nat (length ?u))"
    using upos by (simp add: calculateSimilarity_def Let_def js_div_def)
  have "(of_nat (length ?i) / of_nat (length ?u) :: rat) \<le> 1"
    using le upos by (simp add: divide_le_eq_1)
  moreover have "(0::rat) \<le> of_nat (length ?i) / of_nat (length ?u)"
    by simp
  ultimately show ?thesis
    using ne1 ne2 une val by blast
qed

subsection \<open>Runs, trimming and neighbours\<close>

lemma replaceEach_filter: "replaceEach C [] s = filter (\<lambda>c. \<not> C c) s"
  by (induction s) (simp_all add: replaceEach_def)

lemma replaceEach_map: "replaceEach C [r] s = map (\<lambda>c. if C c then r else c) s"
  by (induction s) (simp_all add: replaceEach_def)

lemma noAdj_Cons: "noAdj Q (x # ys) \<longleftrightarrow> (ys = [] \<or> \<not> (Q x \<and> Q (hd ys))) \<and> noAdj Q ys"
  by (cases ys) auto

lemma noAdj_append:
  "noAdj Q (xs @ ys) \<longleftrightarrow>
     noAdj Q xs \<and> noAdj Q ys \<and> (xs = [] \<or> ys = [] \<or> \<not> (Q (last xs) \<and> Q (hd ys)))"
proof (induction xs)
  case Nil
  show ?case by simp
next
  case (Cons x xs)
  show ?case
  proof (cases xs)
    case Nil
    then show ?thesis by (cases ys) auto
  next
    case (Cons a as)
    with Cons.IH show ?thesis by auto
  qed
qed

lemma noAdj_map: "(\<And>c. Q (f c) = Q c) \<Longrightarrow> noAdj Q (map f s) = noAdj Q s"
  by (induction Q s rule: noAdj.induct) simp_all

lemma noAdj_dropWhile: "noAdj Q s \<Longrightarrow> noAdj Q (dropWhile C s)"
  by (induction s) (auto simp: noAdj_Cons)

lemma replaceRuns_Nil_iff: "replaceRuns C (\<lambda>r. [g r]) s = [] \<longleftrightarrow> s = []"
  by (cases s) auto

lemma hd_replaceRuns:
  "s \<noteq> [] \<Longrightarrow> \<not> C (hd s) \<Longrightarrow> hd (replaceRuns C f s) = hd s"
  by (cases s) auto

lemma dropWhile_hd: "dropWhile C s = [] \<or> \<not> C (hd (dropWhile C s))"
  using hd_dropWhile by blast

lemma noAdj_replaceRuns_self: "noAdj C (replaceRuns C (\<lambda>r. [g r]) s)"
proof (induction C "\<lambda>r::string. [g r]" s rule: replaceRuns.induct)
  case (1 C)
  show ?case by simp
next
  case (2 C c cs)
  show ?case
  proof (cases "C c")
    case True
    have "replaceRuns C (\<lambda>r. [g r]) (dropWhile C cs) = [] \<or>
           \<not> C (hd (replaceRuns C (\<lambda>r. [g r]) (dropWhile C cs)))"
    proof (cases "dropWhile C cs = []")
      case True
      then show ?thesis by (simp del: dropWhile_eq_Nil_conv)
    next
      case False
      then have "\<not> C (hd (dropWhile C cs))" by (rule hd_dropWhile)
      with False show ?thesis by (simp add: hd_replaceRuns del: dropWhile_eq_Nil_conv)
    qed
    with True 2 show ?thesis
      by (auto simp: noAdj_Cons)
  next
    case False
    with 2 show ?thesis by (simp add: noAdj_Cons)
  qed
qed

lemma replaceRuns_fix:
  "noAdj C s \<Longrightarrow> (\<And>c. c \<in> set s \<Longrightarrow> C c \<Longrightarrow> g [c] = c) \<Longrightarrow> replaceRuns C (\<lambda>r. [g r]) s = s"
proof (induction C "\<lambda>r::string. [g r]" s rule: replaceRuns.induct)
  case (1 C)
  show ?case by simp
next
  case (2 C c cs)
  show ?case
  proof (cases "C c")
    case True
    from True "2.prems"(1) have nh: "cs = [] \<or> \<not> C (hd cs)"
      by (auto simp: noAdj_Cons)
    then have tw: "takeWhile C cs = []" and dw: "dropWhile C cs = cs"
      by (cases cs; auto)+
    have "noAdj C cs" using "2.prems"(1) by (simp add: noAdj_Cons)
    with 2 True dw have "replaceRuns C (\<lambda>r. [g r]) cs = cs" by simp
    with True tw dw "2.prems"(2) show ?thesis by simp
  next
    case False
    have "noAdj C cs" using "2.prems"(1) by (simp add: noAdj_Cons)
    with 2 False show ?thesis by simp
  qed
qed

lemma noAdj_replaceRuns_other:
  "(\<And>r. \<not> Q (g r)) \<Longrightarrow> noAdj Q s \<Longrightarrow> noAdj Q (replaceRuns C (\<lambda>r. [g r]) s)"
proof (induction C "\<lambda>r::string. [g r]" s rule: replaceRuns.induct)
  case (1 C)
  show ?case by simp
next
  case (2 C c cs)
  have cs: "noAdj Q cs" using "2.prems"(2) by (simp add: noAdj_Cons)
  show ?case
  proof (cases "C c")
    case True
    with 2 cs show ?thesis by (simp add: noAdj_Cons noAdj_dropWhile)
  next
    case False
    have "cs = [] \<or> \<not> (Q c \<and> Q (hd (replaceRuns C (\<lambda>r. [g r]) cs)))"
    proof (cases cs)
      case Nil then show ?thesis by simp
    next
      case (Cons d ds)
      with "2.prems" show ?thesis by (auto simp: noAdj_Cons)
    qed
    with 2 cs False show ?thesis by (auto simp: noAdj_Cons replaceRuns_Nil_iff)
  qed
qed

lemma set_replaceRuns_sub:
  "(\<And>r. r \<noteq> [] \<Longrightarrow> g r \<in> set r) \<Longrightarrow> set (replaceRuns C (\<lambda>r. [g r]) s) \<subseteq> set s"
proof (induction C "\<lambda>r::string. [g r]" s rule: replaceRuns.induct)
  case (1 C)
  show ?case by simp
next
  case (2 C c cs)
  show ?case
  proof (cases "C c")
    case True
    have "g (c # takeWhile C cs) \<in> set (c # takeWhile C cs)"
      by (rule "2.prems") simp
    moreover have "set (takeWhile C cs) \<subseteq> set cs"
      by (auto dest: set_takeWhileD)
    ultimately have a: "g (c # takeWhile C cs) \<in> set (c # cs)"
      by auto
    have "set (replaceRuns C (\<lambda>r. [g r]) (dropWhile C cs)) \<subseteq> set (dropWhile C cs)"
      using 2 True by simp
    moreover have "set (dropWhile C cs) \<subseteq> set cs"
      by (auto dest: set_dropWhileD)
    ultimately have b: "set (replaceRuns C (\<lambda>r. [g r]) (dropWhile C cs)) \<subseteq> set (c # cs)"
      by auto
    show ?thesis using True a b by simp
  next
    case False
    with 2 show ?thesis by auto
  qed
qed

lemma replaceRuns_all:
  "(\<And>r. A (g r)) \<Longrightarrow> (\<And>c. c \<in> set s \<Longrightarrow> \<not> C c \<Longrightarrow> A c) \<Longrightarrow> c \<in> set (replaceRuns C (\<lambda>r. [g r]) s) \<Longrightarrow> A c"
proof (induction C "\<lambda>r::string. [g r]" s rule: replaceRuns.induct)
  case (1 C)
  then show ?case by simp
next
  case (2 C d ds)
  show ?case
  proof (cases "C d")
    case True
    have "\<And>x. x \<in> set (dropWhile C ds) \<Longrightarrow> x \<in> set ds"
      by (rule set_dropWhileD)
    with 2 True show ?thesis by (auto split: if_splits)
  next
    case False
    with 2 show ?thesis by (auto split: if_splits)
  qed
qed


lemma rev_dropWhile_split: "d = rev (dropWhile C (rev d)) @ rev (takeWhile C (rev d))"
proof -
  have "rev (takeWhile C (rev d) @ dropWhile C (rev d)) = rev (rev d)"
    by (simp only: takeWhile_dropWhile_id)
  then show ?thesis
    by (simp only: rev_append rev_rev_ident)
qed

lemma trim_decomp: "\<exists>a b. s = a @ trim s @ b"
proof -
  let ?d = "dropWhile isSpace s"
  have "?d = trim s @ rev (takeWhile isSpace (rev ?d))"
    unfolding trim_def by (rule rev_dropWhile_split)
  moreover have "s = takeWhile isSpace s @ ?d"
    by simp
  ultimately have "s = takeWhile isSpace s @ trim s @ rev (takeWhile isSpace (rev ?d))"
    by simp
  then show ?thesis by blast
qed

lemma noAdj_trim: "noAdj Q s \<Longrightarrow> noAdj Q (trim s)"
proof -
  assume a: "noAdj Q s"
  obtain x y where "s = x @ trim s @ y"
    using trim_decomp by blast
  with a have "noAdj Q (x @ trim s @ y)" by simp
  then show ?thesis by (simp add: noAdj_append)
qed

lemma set_trim: "set (trim s) \<subseteq> set s"
proof -
  obtain x y where "s = x @ trim s @ y"
    using trim_decomp by blast
  then have "set s = set x \<union> set (trim s) \<union> set y"
    by (metis set_append sup_assoc)
  then show ?thesis by blast
qed

lemma dropWhile_rev_dropWhile:
  "dropWhile C (rev (dropWhile C (rev d))) = rev (dropWhile C (rev d))" if "d = [] \<or> \<not> C (hd d)"
proof (cases "rev (dropWhile C (rev d))")
  case Nil
  then show ?thesis by (simp del: dropWhile_eq_Nil_conv)
next
  case (Cons x xs)
  have "d = rev (dropWhile C (rev d)) @ rev (takeWhile C (rev d))"
    by (rule rev_dropWhile_split)
  then have "d = (x # xs) @ rev (takeWhile C (rev d))"
    using Cons by simp
  then have "d \<noteq> [] \<and> hd d = x"
    by (metis append_Cons list.sel(1) list.distinct(1))
  with that have "\<not> C x" by auto
  with Cons show ?thesis by simp
qed

lemma trim_idem: "trim (trim s) = trim s"
proof -
  let ?d = "dropWhile isSpace s"
  have "?d = [] \<or> \<not> isSpace (hd ?d)"
    by (rule dropWhile_hd)
  then have "dropWhile isSpace (trim s) = trim s"
    unfolding trim_def by (rule dropWhile_rev_dropWhile)
  then show ?thesis
    by (simp add: trim_def)
qed


lemma cleanupText_alt:
  "cleanupText s =
     trim (replaceRuns isSpace (\<lambda>r. [CHR '' ''])
       (filter isPrintable (map fixChar (replaceRuns isPunct (\<lambda>r. [last r]) s))))"
proof -
  have "map (\<lambda>c. if c \<in> {CHR ''0'', CHR ''O''} then CHR ''o'' else c)
          (map (\<lambda>c. if c \<in> {CHR ''1'', CHR ''I'', CHR ''l''} then CHR ''l'' else c)
            (map (\<lambda>c. if c = CHR ''|'' then CHR ''I'' else c) xs)) = map fixChar xs" for xs
    by (simp add: fixChar_def Let_def)
  note m = this
  have f: "replaceEach (\<lambda>c. \<not> isPrintable c) [] xs = filter isPrintable xs" for xs
    by (simp add: replaceEach_filter)
  show ?thesis
    unfolding cleanupText_def f replaceEach_map m by (rule refl)
qed

lemma fixChar_punct: "isPunct (fixChar c) = isPunct c"
  by (simp add: fixChar_def isPunct_def Let_def)

lemma fixChar_printable: "isPrintable c \<Longrightarrow> isPrintable (fixChar c)"
  by (simp add: fixChar_def isPrintable_def charCode_def Let_def)

lemma fixChar_not_confusable: "\<not> confusable (fixChar c)"
  by (simp add: fixChar_def confusable_def Let_def)

lemma fixChar_id: "\<not> confusable c \<Longrightarrow> fixChar c = c"
  by (auto simp add: fixChar_def confusable_def Let_def)

lemma space_facts:
  "\<not> isPunct (CHR '' '')" "isPrintable (CHR '' '')" "\<not> confusable (CHR '' '')" "isSpace (CHR '' '')"
  by (simp_all add: isPunct_def isPrintable_def confusable_def isSpace_def charCode_def)

lemma cleanupText_fix:
  assumes p: "noAdj isPunct t" and w: "noAdj isSpace t" and a: "\<And>c. c \<in> set t \<Longrightarrow> tidy c"
    and tr: "trim t = t"
  shows "cleanupText t = t"
proof -
  have 1: "replaceRuns isPunct (\<lambda>r. [last r]) t = t"
    using p by (rule replaceRuns_fix) simp
  have 2: "map fixChar t = t"
    using a by (intro map_idI fixChar_id) (simp add: tidy_def)
  have 3: "filter isPrintable t = t"
    using a by (simp add: tidy_def)
  have 4: "replaceRuns isSpace (\<lambda>r. [CHR '' '']) t = t"
    using w by (rule replaceRuns_fix) (use a in \<open>simp add: tidy_def\<close>)
  show ?thesis
    by (simp only: cleanupText_alt 1 2 3 4 tr)
qed

lemma cleanupText_tidy:
  assumes "\<And>c. c \<in> set s \<Longrightarrow> isPrintable c"
  shows "noAdj isPunct (cleanupText s) \<and> noAdj isSpace (cleanupText s) \<and>
         (\<forall>c \<in> set (cleanupText s). tidy c)"
proof -
  let ?p = "replaceRuns isPunct (\<lambda>r. [last r]) s"
  let ?q = "map fixChar ?p"
  let ?w = "replaceRuns isSpace (\<lambda>r. [CHR '' '']) ?q"
  have sub: "set ?p \<subseteq> set s"
    by (rule set_replaceRuns_sub) simp
  have "\<And>c. c \<in> set ?q \<Longrightarrow> isPrintable c"
    using sub assms by (auto simp: fixChar_printable)
  then have f: "filter isPrintable ?q = ?q"
    by simp
  have eq: "cleanupText s = trim ?w"
    by (simp only: cleanupText_alt f)
  have "noAdj isPunct ?p"
    by (rule noAdj_replaceRuns_self)
  then have "noAdj isPunct ?q"
    by (simp add: noAdj_map fixChar_punct)
  then have wp: "noAdj isPunct ?w"
    by (intro noAdj_replaceRuns_other) (simp_all add: space_facts)
  have ww: "noAdj isSpace ?w"
    by (rule noAdj_replaceRuns_self)
  have wa: "tidy c" if "c \<in> set ?w" for c
  proof (rule replaceRuns_all [where A = tidy, OF _ _ that])
    show "tidy (CHR '' '')" for r :: string
      by (simp add: tidy_def space_facts)
  next
    fix c assume c: "c \<in> set ?q" "\<not> isSpace c"
    then have "isPrintable c"
      using sub assms by (auto simp: fixChar_printable)
    moreover have "\<not> confusable c"
      using c by (auto simp: fixChar_not_confusable)
    ultimately show "tidy c"
      using c by (simp add: tidy_def)
  qed
  show ?thesis
    unfolding eq using wp ww wa set_trim [of ?w] by (auto intro: noAdj_trim)
qed

subsection \<open>The text normaliser\<close>

text \<open>
  C5 (as stated): \<^verbatim>\<open>cleanupText\<close> is idempotent on every string.  It is not: the
  punctuation runs are collapsed before the characters outside the printable range are
  removed, so a TAB between two full stops is removed and leaves two full stops, which a
  second application collapses.
\<close>

theorem cleanupText_idempotent_counterexample:
  "cleanupText (cleanupText [CHR ''.'', CHR 0x09, CHR ''.'']) \<noteq> cleanupText [CHR ''.'', CHR 0x09, CHR ''.'']"
  by code_simp

text \<open>
  C5 (amended): on every string made of printable ASCII characters (0x20 .. 0x7E) and
  newlines, \<^verbatim>\<open>cleanupText\<close> applied twice gives the same result as applied once.
\<close>

theorem cleanupText_idempotent_printable:
  assumes "\<forall>c \<in> set s. isPrintable c"
  shows "cleanupText (cleanupText s) = cleanupText s"
proof (rule cleanupText_fix)
  show "noAdj isPunct (cleanupText s)" "noAdj isSpace (cleanupText s)"
    using cleanupText_tidy [of s] assms by simp_all
  show "tidy c" if "c \<in> set (cleanupText s)" for c
    using cleanupText_tidy [of s] assms that by simp
  show "trim (cleanupText s) = cleanupText s"
    by (simp add: cleanupText_def trim_idem)
qed

theorem cleanupText_idempotent_printable_witness:
  "cleanupText (cleanupText ''Hello,,  wor|d!?  10 O'') = cleanupText ''Hello,,  wor|d!?  10 O'' \<and>
   cleanupText ''Hello,,  wor|d!?  10 O'' = ''Hello, world? lo o''"
proof -
  have h: "\<forall>c \<in> set ''Hello,,  wor|d!?  10 O''. isPrintable c"
    by code_simp
  have v: "cleanupText ''Hello,,  wor|d!?  10 O'' = ''Hello, world? lo o''"
    by code_simp
  from cleanupText_idempotent_printable [OF h] v show ?thesis
    by (rule conjI)
qed

subsection \<open>Tags\<close>

lemma not_alnum_hyphen: "\<not> isAlnum (CHR ''-'')"
  by (simp add: isAlnum_def charCode_def)

lemma tagRegex_intro:
  "s \<noteq> [] \<Longrightarrow> (\<And>c. c \<in> set s \<Longrightarrow> isTagChar c) \<Longrightarrow> hd s \<noteq> CHR ''-'' \<Longrightarrow> last s \<noteq> CHR ''-'' \<Longrightarrow>
   noAdj isHyphen s \<Longrightarrow> tagRegex s"
proof (induction s rule: tagRegex.induct)
  case (1 s)
  have "isTagChar (hd s)"
    using "1.prems"(1,2) by simp
  with "1.prems"(3) have "isAlnum (hd s)"
    by (simp add: isTagChar_def)
  with "1.prems"(1) have tw: "takeWhile isAlnum s \<noteq> []"
    by (cases s) simp_all
  show ?case
  proof (cases "dropWhile isAlnum s")
    case Nil
    with tw show ?thesis
      by (subst tagRegex.simps) (simp del: dropWhile_eq_Nil_conv takeWhile_eq_Nil_iff)
  next
    case (Cons c r)
    have s: "s = takeWhile isAlnum s @ c # r"
      using Cons by (metis takeWhile_dropWhile_id)
    have "\<not> isAlnum c"
      using Cons hd_dropWhile [of isAlnum s] by simp
    moreover have "c \<in> set s"
      by (subst s) simp
    ultimately have c: "c = CHR ''-''"
      using "1.prems"(2) by (auto simp: isTagChar_def)
    have r: "r \<noteq> []"
    proof
      assume "r = []"
      with s have "last s = c" by (metis last_snoc)
      with c "1.prems"(4) show False by simp
    qed
    have nr: "noAdj isHyphen (c # r)"
      using "1.prems"(5) by (subst (asm) s) (simp add: noAdj_append)
    have "tagRegex r"
    proof (rule "1.IH" [OF Cons r])
      show "isTagChar x" if "x \<in> set r" for x
      proof -
        from that have "x \<in> set s" by (subst s) simp
        then show ?thesis by (rule "1.prems"(2))
      qed
      show "hd r \<noteq> CHR ''-''"
        using nr r c by (simp add: noAdj_Cons)
      show "last r \<noteq> CHR ''-''"
        using "1.prems"(4) r by (subst (asm) s) simp
      show "noAdj isHyphen r"
        using nr by (simp add: noAdj_Cons)
    qed
    with tw Cons c show ?thesis
      by (subst tagRegex.simps) (simp del: dropWhile_eq_Nil_conv takeWhile_eq_Nil_iff)
  qed
qed

lemma stripEdgeHyphens_shape:
  assumes "noAdj isHyphen u"
  shows "(\<exists>a b. u = a @ stripEdgeHyphens u @ b) \<and>
         (stripEdgeHyphens u = [] \<or>
          (hd (stripEdgeHyphens u) \<noteq> CHR ''-'' \<and> last (stripEdgeHyphens u) \<noteq> CHR ''-''))"
proof -
  define s1 where "s1 = (case u of [] \<Rightarrow> [] | c # cs \<Rightarrow> if c = CHR ''-'' then cs else u)"
  define v where "v = (if s1 \<noteq> [] \<and> last s1 = CHR ''-'' then butlast s1 else s1)"
  have v: "stripEdgeHyphens u = v"
    by (simp add: stripEdgeHyphens_def s1_def v_def Let_def)
  have "u = (if u \<noteq> [] \<and> hd u = CHR ''-'' then [CHR ''-''] else []) @ s1"
    by (cases u) (simp_all add: s1_def)
  then obtain a where a: "u = a @ s1" ..
  have h1: "s1 = [] \<or> hd s1 \<noteq> CHR ''-''"
    using assms by (cases u) (auto simp: s1_def noAdj_Cons)
  have n1: "noAdj isHyphen s1"
    using assms a by (simp add: noAdj_append)
  have "s1 = v @ (if s1 \<noteq> [] \<and> last s1 = CHR ''-'' then [CHR ''-''] else [])"
    by (simp add: v_def) (metis append_butlast_last_id)
  then obtain b where b: "s1 = v @ b" ..
  have hv: "v = [] \<or> hd v \<noteq> CHR ''-''"
    using h1 b by (cases v) auto
  have lv: "v = [] \<or> last v \<noteq> CHR ''-''"
  proof (cases "s1 \<noteq> [] \<and> last s1 = CHR ''-''")
    case True
    then have "s1 = v @ [CHR ''-'']"
      by (simp add: v_def) (metis append_butlast_last_id)
    with n1 show ?thesis
      by (simp add: noAdj_append)
  next
    case False
    then show ?thesis by (auto simp: v_def)
  qed
  from a b have "u = a @ v @ b" by simp
  then have "\<exists>a b. u = a @ v @ b" by blast
  with hv lv show ?thesis unfolding v by blast
qed

lemma formatTag_alt:
  "formatTag s =
     stripEdgeHyphens (replaceRuns isHyphen (\<lambda>r. [CHR ''-''])
       (filter isTagChar (replaceRuns isSpace (\<lambda>r. [CHR ''-'']) (toLowerCase s))))"
proof -
  have f: "replaceEach (\<lambda>c. \<not> isTagChar c) [] xs = filter isTagChar xs" for xs
    by (simp add: replaceEach_filter)
  show ?thesis
    unfolding formatTag_def f by (rule refl)
qed

lemma formatTag_shape: "formatTag s = [] \<or> tagRegex (formatTag s)"
proof -
  let ?x = "filter isTagChar (replaceRuns isSpace (\<lambda>r. [CHR ''-'']) (toLowerCase s))"
  let ?u = "replaceRuns isHyphen (\<lambda>r. [CHR ''-'']) ?x"
  have n: "noAdj isHyphen ?u"
    by (rule noAdj_replaceRuns_self)
  have t: "isTagChar c" if "c \<in> set ?u" for c
    by (rule replaceRuns_all [where A = isTagChar, OF _ _ that]) (simp_all add: isTagChar_def)
  have v: "formatTag s = stripEdgeHyphens ?u"
    by (rule formatTag_alt)
  from stripEdgeHyphens_shape [OF n] obtain a b where
    d: "?u = a @ formatTag s @ b" and
    e: "formatTag s = [] \<or> (hd (formatTag s) \<noteq> CHR ''-'' \<and> last (formatTag s) \<noteq> CHR ''-'')"
    unfolding v by blast
  show ?thesis
  proof (cases "formatTag s = []")
    case True
    then show ?thesis by simp
  next
    case False
    have "tagRegex (formatTag s)"
    proof (rule tagRegex_intro [OF False])
      show "isTagChar c" if "c \<in> set (formatTag s)" for c
      proof -
        from that have "c \<in> set (a @ formatTag s @ b)" by simp
        then have "c \<in> set ?u" by (simp only: d [symmetric])
        then show ?thesis by (rule t)
      qed
      show "hd (formatTag s) \<noteq> CHR ''-''" "last (formatTag s) \<noteq> CHR ''-''"
        using e False by simp_all
      have "noAdj isHyphen (a @ formatTag s @ b)"
        using n by (simp only: d [symmetric])
      then show "noAdj isHyphen (formatTag s)"
        by (simp add: noAdj_append)
    qed
    then show ?thesis by simp
  qed
qed

lemma foldl_invariant:
  "P a \<Longrightarrow> (\<And>a x. P a \<Longrightarrow> x \<in> set xs \<Longrightarrow> P (f a x)) \<Longrightarrow> P (foldl f a xs)"
  by (induction xs arbitrary: a) simp_all

lemma set_set_add: "set (set_add s x) = insert x (set s)"
  by (auto simp: set_add_def)

lemma distinct_set_add: "distinct s \<Longrightarrow> distinct (set_add s x)"
  by (simp add: set_add_def)

lemma alnum_tagRegex:
  assumes "w \<noteq> []" and "\<And>c. c \<in> set w \<Longrightarrow> isAlnum c"
  shows "tagRegex w"
proof -
  have "takeWhile isAlnum w = w" "dropWhile isAlnum w = []"
    using assms(2) by simp_all
  with assms(1) show ?thesis
    by (subst tagRegex.simps) (simp del: dropWhile_eq_Nil_conv takeWhile_eq_all_conv)
qed

lemma tagWords_good:
  assumes "w \<in> set (tagWords text)"
  shows "tagRegex w \<and> 3 < length w"
proof -
  from assms obtain p where w: "w = filter isAlnum p" and l: "3 < length w"
    by (auto simp: tagWords_def replaceEach_filter)
  from l have "w \<noteq> []" by auto
  moreover have "isAlnum c" if "c \<in> set w" for c
    using that w by simp
  ultimately have "tagRegex w" by (rule alnum_tagRegex)
  with l show ?thesis by simp
qed

lemma formatTag_good: "3 < length (formatTag s) \<Longrightarrow> tagRegex (formatTag s) \<and> 3 < length (formatTag s)"
  using formatTag_shape [of s] by auto

lemma set_phraseStep:
  "t \<in> set (phraseStep words tags i) \<Longrightarrow> t \<in> set tags \<or> (\<exists>s. t = formatTag s \<and> 3 < length t)"
  by (auto simp: phraseStep_def Let_def set_set_add split: if_splits)

lemma set_wordStep: "t \<in> set (wordStep tags word) \<Longrightarrow> t \<in> set tags \<or> t = word"
  by (auto simp: wordStep_def set_set_add split: if_splits)

lemma phraseStep_good:
  assumes "\<forall>t \<in> set tags. tagRegex t \<and> 3 < length t"
  shows "\<forall>t \<in> set (phraseStep words tags i). tagRegex t \<and> 3 < length t"
proof
  fix t assume "t \<in> set (phraseStep words tags i)"
  then have "t \<in> set tags \<or> (\<exists>s. t = formatTag s \<and> 3 < length t)"
    by (rule set_phraseStep)
  then show "tagRegex t \<and> 3 < length t"
  proof
    assume "t \<in> set tags"
    with assms show ?thesis by blast
  next
    assume "\<exists>s. t = formatTag s \<and> 3 < length t"
    then obtain s where "t = formatTag s" "3 < length (formatTag s)" by blast
    then show ?thesis using formatTag_good [of s] by simp
  qed
qed

lemma wordStep_good:
  assumes "\<forall>t \<in> set tags. tagRegex t \<and> 3 < length t" and "word \<in> set (tagWords text)"
  shows "\<forall>t \<in> set (wordStep tags word). tagRegex t \<and> 3 < length t"
proof
  fix t assume "t \<in> set (wordStep tags word)"
  then have "t \<in> set tags \<or> t = word"
    by (rule set_wordStep)
  then show "tagRegex t \<and> 3 < length t"
  proof
    assume "t \<in> set tags"
    with assms(1) show ?thesis by blast
  next
    assume "t = word"
    with tagWords_good [OF assms(2)] show ?thesis by simp
  qed
qed

lemma generateTags_good:
  "\<forall>t \<in> set (generateTags text). tagRegex t \<and> 3 < length t"
proof -
  let ?G = "\<lambda>tags. \<forall>t \<in> set tags. tagRegex t \<and> 3 < length t"
  let ?words = "tagWords text"
  have "?G (foldl (phraseStep ?words) [] [0 ..< length ?words])"
  proof (rule foldl_invariant [where P = ?G])
    show "?G []" by simp
    show "?G (phraseStep ?words a x)" if "?G a" for a x
      using that by (rule phraseStep_good)
  qed
  then have "?G (foldl wordStep (foldl (phraseStep ?words) [] [0 ..< length ?words]) ?words)"
  proof (rule foldl_invariant [where P = ?G])
    show "?G (wordStep a x)" if "?G a" "x \<in> set ?words" for a x
      using that by (rule wordStep_good)
  qed
  then show ?thesis
    by (simp only: generateTags_def Let_def)
qed

lemma phraseStep_distinct: "distinct tags \<Longrightarrow> distinct (phraseStep words tags i)"
  by (simp add: phraseStep_def Let_def distinct_set_add)

lemma wordStep_distinct: "distinct tags \<Longrightarrow> distinct (wordStep tags word)"
  by (simp add: wordStep_def distinct_set_add)

text \<open>
  C4 (as stated): every string returned by \<^verbatim>\<open>formatTag\<close> matches the tag pattern and is
  longer than 3.  It is not: \<^verbatim>\<open>formatTag\<close> only rewrites its argument, the length test
  is made by \<^verbatim>\<open>generateTags\<close>, so a short tag comes back short.
\<close>

theorem formatTag_counterexample:
  "\<not> (tagRegex (formatTag ''ai'') \<and> 3 < length (formatTag ''ai''))"
  by code_simp

text \<open>
  C4 (amended): every tag returned by \<^verbatim>\<open>generateTags\<close> matches the tag pattern and is
  longer than 3; every string returned by \<^verbatim>\<open>formatTag\<close> is empty or matches the tag
  pattern.
\<close>

theorem tag_format:
  "(\<forall>t \<in> set (generateTags text). tagRegex t \<and> 3 < length t) \<and>
   (formatTag tag = [] \<or> tagRegex (formatTag tag))"
  using generateTags_good formatTag_shape by blast

theorem tag_format_witness:
  "tagRegex ''milk-eggs'' \<and> 3 < length ''milk-eggs'' \<and>
   formatTag '' Hello  World--x! '' = ''hello-world-x'' \<and> tagRegex ''hello-world-x''"
proof -
  have m: "''milk-eggs'' \<in> set (generateTags ''Buy milk and eggs tomorrow'')"
    by code_simp
  have f: "formatTag '' Hello  World--x! '' = ''hello-world-x''"
    by code_simp
  from tag_format [of "''Buy milk and eggs tomorrow''" "'' Hello  World--x! ''"]
  have "(\<forall>t \<in> set (generateTags ''Buy milk and eggs tomorrow''). tagRegex t \<and> 3 < length t) \<and>
     (formatTag '' Hello  World--x! '' = [] \<or> tagRegex (formatTag '' Hello  World--x! ''))" .
  with m f show ?thesis by (metis list.distinct(1))
qed

text \<open>
  C8: \<^verbatim>\<open>generateTags\<close> has no failing branch (its body has no operation that throws,
  and the guards of the first loop keep every index read inside \<open>words\<close>), so it is a
  total function: for every text it returns a list of tags without duplicates, and for
  the empty text it returns no tag.
\<close>

theorem generateTags_total:
  "distinct (generateTags text) \<and> generateTags [] = []"
proof
  let ?words = "tagWords text"
  have "distinct (foldl (phraseStep ?words) [] [0 ..< length ?words])"
    by (rule foldl_invariant [where P = distinct]) (simp, rule phraseStep_distinct)
  then have "distinct (foldl wordStep (foldl (phraseStep ?words) [] [0 ..< length ?words]) ?words)"
    by (rule foldl_invariant [where P = distinct]) (rule wordStep_distinct)
  then show "distinct (generateTags text)"
    by (simp only: generateTags_def Let_def)
  show "generateTags [] = []"
    by code_simp
qed

subsection \<open>Responses of the language model\<close>

text \<open>
  C9: \<^verbatim>\<open>enhanceWithLLM\<close> returns its argument as the text, the confidence 0.9, no
  tags and no summary.
\<close>

theorem enhanceWithLLM_passthrough:
  "llm_text (enhanceWithLLM text) = text \<and>
   llm_confidence (enhanceWithLLM text) = 9 / 10 \<and>
   llm_tags (enhanceWithLLM text) = None \<and>
   llm_summary (enhanceWithLLM text) = None"
  by (simp add: enhanceWithLLM_def)

lemma startsWith_Cons:
  "startsWith (c # p) s = (case s of [] \<Rightarrow> False | d # t \<Rightarrow> d = c \<and> startsWith p t)"
  by (cases s) (auto simp: startsWith_def)

lemma startsWith_Nil: "startsWith [] s"
  by (simp add: startsWith_def)

lemma prefixes_exclusive:
  "startsWith ''TEXT:'' s \<Longrightarrow> \<not> startsWith ''TAGS:'' s"
  "startsWith ''TEXT:'' s \<Longrightarrow> \<not> startsWith ''SUMMARY:'' s"
  "startsWith ''TAGS:'' s \<Longrightarrow> \<not> startsWith ''SUMMARY:'' s"
  by (auto simp: startsWith_Cons split: list.splits)

lemma lastBlock_Nil: "lastBlock p [] = None"
  by (simp add: lastBlock_def)

lemma lastBlock_snoc:
  "lastBlock p (xs @ [x]) = (if startsWith p x then Some x else lastBlock p xs)"
  by (simp add: lastBlock_def)

lemma foldl_parseSection:
  "foldl parseSection r0 sections =
     r0\<lparr>llm_text := (case lastBlock ''TEXT:'' sections of
                       None \<Rightarrow> llm_text r0
                     | Some b \<Rightarrow> trim (replaceFirst ''TEXT:'' [] b)),
        llm_tags := (case lastBlock ''TAGS:'' sections of
                       None \<Rightarrow> llm_tags r0
                     | Some b \<Rightarrow> Some (parseTags b)),
        llm_summary := (case lastBlock ''SUMMARY:'' sections of
                          None \<Rightarrow> llm_summary r0
                        | Some b \<Rightarrow> Some (trim (replaceFirst ''SUMMARY:'' [] b)))\<rparr>"
proof (induction sections rule: rev_induct)
  case Nil
  show ?case by (simp add: lastBlock_Nil)
next
  case (snoc x xs)
  consider (t) "startsWith ''TEXT:'' x" | (g) "startsWith ''TAGS:'' x"
    | (s) "startsWith ''SUMMARY:'' x"
    | (n) "\<not> startsWith ''TEXT:'' x" "\<not> startsWith ''TAGS:'' x" "\<not> startsWith ''SUMMARY:'' x"
    by blast
  then show ?case
  proof cases
    case t
    with prefixes_exclusive [of x] snoc show ?thesis
      by (simp add: lastBlock_snoc parseSection_def)
  next
    case g
    with prefixes_exclusive [of x] snoc show ?thesis
      by (auto simp add: lastBlock_snoc parseSection_def)
  next
    case s
    with prefixes_exclusive [of x] snoc show ?thesis
      by (auto simp add: lastBlock_snoc parseSection_def)
  next
    case n
    with snoc show ?thesis
      by (simp add: lastBlock_snoc parseSection_def)
  qed
qed

text \<open>
  C3 (as stated): the first block with a given prefix wins.  It does not: the loop
  assigns the field at every block with the prefix, so a later block replaces an earlier
  one.
\<close>

theorem parseLLMResponse_first_block_counterexample:
  "splitStr [CHR 0x0A, CHR 0x0A] (''TEXT:a'' @ [CHR 0x0A, CHR 0x0A] @ ''TEXT:b'') = [''TEXT:a'', ''TEXT:b''] \<and>
   llm_text (parseLLMResponse (''TEXT:a'' @ [CHR 0x0A, CHR 0x0A] @ ''TEXT:b'')) = ''b''"
  by code_simp

text \<open>
  C3 (amended): the response is split at every occurrence of two newlines, and each of
  the three fields is taken from the last block that starts with its prefix (\<^verbatim>\<open>TEXT:\<close>,
  \<^verbatim>\<open>TAGS:\<close>, \<^verbatim>\<open>SUMMARY:\<close>); without such a block the field keeps its initial value,
  and the blocks with none of the prefixes have no effect.
\<close>

theorem parseLLMResponse_last_block:
  "parseLLMResponse response =
     \<lparr>llm_text = (case lastBlock ''TEXT:'' (splitStr [CHR 0x0A, CHR 0x0A] response) of
                     None \<Rightarrow> []
                   | Some b \<Rightarrow> trim (replaceFirst ''TEXT:'' [] b)),
      llm_tags = (case lastBlock ''TAGS:'' (splitStr [CHR 0x0A, CHR 0x0A] response) of
                     None \<Rightarrow> None
                   | Some b \<Rightarrow> Some (parseTags b)),
      llm_summary = (case lastBlock ''SUMMARY:'' (splitStr [CHR 0x0A, CHR 0x0A] response) of
                        None \<Rightarrow> None
                      | Some b \<Rightarrow> Some (trim (replaceFirst ''SUMMARY:'' [] b))),
      llm_confidence = 9 / 10\<rparr>"
  unfolding parseLLMResponse_def by (subst foldl_parseSection) (simp split: option.splits)

subsection \<open>Local recognition\<close>

lemma map_filter_snoc:
  "List.map_filter f (xs @ [x]) = List.map_filter f xs @ (case f x of None \<Rightarrow> [] | Some y \<Rightarrow> [y])"
  by (simp add: List.map_filter_def split: option.splits)

lemma trimmedOutputs_Nil: "trimmedOutputs recognize [] = []"
  by (simp add: trimmedOutputs_def outputs_def List.map_filter_def)

lemma trimmedOutputs_snoc:
  "trimmedOutputs recognize (ms @ [m]) =
     trimmedOutputs recognize ms @ (case recognize m of None \<Rightarrow> [] | Some d \<Rightarrow> [trim d])"
  by (simp add: trimmedOutputs_def outputs_def map_filter_snoc split: option.splits)

lemma ocrLoop_Nil: "ocrLoop recognize [] = \<lparr>bestResult = [], maxWordCount = 0, console = []\<rparr>"
  by (simp add: ocrLoop_def)

lemma ocrLoop_snoc: "ocrLoop recognize (ms @ [m]) = attempt recognize (ocrLoop recognize ms) m"
  by (simp add: ocrLoop_def)

lemma wordCount_pos: "0 < length (splitWs t)"
  using splitWs_not_Nil [of t] by simp

lemma console_ocrLoop:
  "console (ocrLoop recognize ms) = filter (\<lambda>m. recognize m = None) ms"
  by (induction ms rule: rev_induct)
     (simp_all add: ocrLoop_Nil ocrLoop_snoc attempt_def Let_def split: option.splits)

text \<open>Failed attempts leave the two loop variables as they are.\<close>

lemma ocrLoop_skips_failed:
  "bestResult (ocrLoop recognize ms) = bestResult (ocrLoop recognize (filter (\<lambda>m. recognize m \<noteq> None) ms)) \<and>
   maxWordCount (ocrLoop recognize ms) = maxWordCount (ocrLoop recognize (filter (\<lambda>m. recognize m \<noteq> None) ms))"
  by (induction ms rule: rev_induct)
     (auto simp add: ocrLoop_Nil ocrLoop_snoc attempt_def Let_def split: option.splits)

lemma firstMax_keep:
  assumes "firstMax ts k" and "length (splitWs t) \<le> length (splitWs (ts ! k))"
  shows "firstMax (ts @ [t]) k"
  using assms by (auto simp: firstMax_def nth_append less_Suc_eq)

lemma firstMax_new:
  assumes "\<And>j. j < length ts \<Longrightarrow> length (splitWs (ts ! j)) < length (splitWs t)"
  shows "firstMax (ts @ [t]) (length ts)"
  using assms by (auto simp: firstMax_def nth_append less_Suc_eq intro: less_imp_le)

lemma ocrLoop_best:
  "(trimmedOutputs recognize ms = [] \<longrightarrow>
      bestResult (ocrLoop recognize ms) = [] \<and> maxWordCount (ocrLoop recognize ms) = 0) \<and>
   (trimmedOutputs recognize ms \<noteq> [] \<longrightarrow>
      (\<exists>k. firstMax (trimmedOutputs recognize ms) k \<and>
           bestResult (ocrLoop recognize ms) = trimmedOutputs recognize ms ! k \<and>
           maxWordCount (ocrLoop recognize ms) = length (splitWs (trimmedOutputs recognize ms ! k))))"
proof (induction ms rule: rev_induct)
  case Nil
  show ?case by (simp add: trimmedOutputs_Nil ocrLoop_Nil)
next
  case (snoc m ms)
  let ?ts = "trimmedOutputs recognize ms"
  let ?st = "ocrLoop recognize ms"
  show ?case
  proof (cases "recognize m")
    case None
    then have "trimmedOutputs recognize (ms @ [m]) = ?ts"
      and "bestResult (ocrLoop recognize (ms @ [m])) = bestResult ?st"
      and "maxWordCount (ocrLoop recognize (ms @ [m])) = maxWordCount ?st"
      by (simp_all add: trimmedOutputs_snoc ocrLoop_snoc attempt_def)
    with snoc show ?thesis by simp
  next
    case (Some d)
    let ?t = "trim d"
    have ts': "trimmedOutputs recognize (ms @ [m]) = ?ts @ [?t]"
      using Some by (simp add: trimmedOutputs_snoc)
    show ?thesis
    proof (cases "length (splitWs ?t) > maxWordCount ?st")
      case True
      then have st': "bestResult (ocrLoop recognize (ms @ [m])) = ?t"
        "maxWordCount (ocrLoop recognize (ms @ [m])) = length (splitWs ?t)"
        using Some by (simp_all add: ocrLoop_snoc attempt_def Let_def)
      have "length (splitWs (?ts ! j)) < length (splitWs ?t)" if "j < length ?ts" for j
      proof -
        from that have ne: "?ts \<noteq> []" by auto
        with snoc obtain k where k: "firstMax ?ts k"
          "maxWordCount ?st = length (splitWs (?ts ! k))" by blast
        from k(1) that have "length (splitWs (?ts ! j)) \<le> length (splitWs (?ts ! k))"
          by (simp add: firstMax_def)
        with k(2) True show ?thesis by simp
      qed
      then have "firstMax (?ts @ [?t]) (length ?ts)"
        by (rule firstMax_new)
      then show ?thesis
        unfolding ts' st' by (intro conjI impI exI [of _ "length ?ts"]) simp_all
    next
      case False
      then have st': "bestResult (ocrLoop recognize (ms @ [m])) = bestResult ?st"
        "maxWordCount (ocrLoop recognize (ms @ [m])) = maxWordCount ?st"
        using Some by (simp_all add: ocrLoop_snoc attempt_def Let_def)
      have ne: "?ts \<noteq> []"
      proof
        assume "?ts = []"
        with snoc have "maxWordCount ?st = 0" by simp
        with False wordCount_pos [of ?t] show False by simp
      qed
      with snoc obtain k where k: "firstMax ?ts k" "bestResult ?st = ?ts ! k"
        "maxWordCount ?st = length (splitWs (?ts ! k))" by blast
      from k(1) have kl: "k < length ?ts" by (simp add: firstMax_def)
      from False k(3) have "length (splitWs ?t) \<le> length (splitWs (?ts ! k))" by simp
      with k(1) have "firstMax (?ts @ [?t]) k" by (rule firstMax_keep)
      then show ?thesis
        unfolding ts' st' using k kl by (intro conjI impI exI [of _ k]) (simp_all add: nth_append)
    qed
  qed
qed


























text \<open>
  C2 (as stated): if all three attempts fail, the operation surfaces an error.  It does
  not: with the scheduler set and every attempt failing, the three failures are logged
  and the operation returns the empty string.
\<close>

theorem processWithTesseract_all_fail_counterexample:
  "processWithTesseract True engineDown = ([SINGLE_BLOCK, SINGLE_LINE, SPARSE_TEXT], Inr [])"
  by code_simp

text \<open>
  C2 (amended): with the scheduler set, the operation returns normally whatever the
  attempts do; the modes whose attempt failed are logged, in order, and the result is the
  one the loop computes over the modes whose attempt returned, so a failed attempt is
  skipped without effect on the others; if every attempt fails the result is the empty
  string.
\<close>

theorem processWithTesseract_failures:
  "fst (processWithTesseract True recognize) = filter (\<lambda>mode. recognize mode = None) psmModes \<and>
   snd (processWithTesseract True recognize) =
     Inr (cleanupText (bestResult
       (ocrLoop recognize (filter (\<lambda>mode. recognize mode \<noteq> None) psmModes)))) \<and>
   ((\<forall>mode. recognize mode = None) \<longrightarrow> snd (processWithTesseract True recognize) = Inr [])"
proof (intro conjI impI)
  show "fst (processWithTesseract True recognize) = filter (\<lambda>mode. recognize mode = None) psmModes"
    by (simp add: processWithTesseract_def console_ocrLoop)
  show "snd (processWithTesseract True recognize) =
     Inr (cleanupText (bestResult
       (ocrLoop recognize (filter (\<lambda>mode. recognize mode \<noteq> None) psmModes))))"
    using ocrLoop_skips_failed [of recognize psmModes] by (simp add: processWithTesseract_def)
  assume "\<forall>mode. recognize mode = None"
  then have "trimmedOutputs recognize psmModes = []"
    by (simp add: trimmedOutputs_def outputs_def List.map_filter_def)
  with ocrLoop_best [of recognize psmModes] have "bestResult (ocrLoop recognize psmModes) = []"
    by simp
  moreover have "cleanupText [] = []"
    by code_simp
  ultimately show "snd (processWithTesseract True recognize) = Inr []"
    by (simp add: processWithTesseract_def)
qed

theorem processWithTesseract_failures_witness:
  "fst (processWithTesseract True engineDown) = psmModes \<and>
   snd (processWithTesseract True engineDown) = Inr []"
proof -
  have h: "\<forall>mode. engineDown mode = None"
    by (simp add: engineDown_def)
  then have f: "filter (\<lambda>mode. engineDown mode = None) psmModes = psmModes"
    by simp
  from processWithTesseract_failures [of engineDown]
  have a: "fst (processWithTesseract True engineDown) = filter (\<lambda>mode. engineDown mode = None) psmModes"
    and c: "(\<forall>mode. engineDown mode = None) \<longrightarrow> snd (processWithTesseract True engineDown) = Inr []"
    by blast+
  from a f have "fst (processWithTesseract True engineDown) = psmModes"
    by (rule trans)
  moreover from c h have "snd (processWithTesseract True engineDown) = Inr []"
    by (rule mp)
  ultimately show ?thesis
    by (rule conjI)
qed



subsection \<open>Related notes\<close>

lemma relatedLoop_reads:
  assumes "\<forall>file \<in> set files. read file = Inr (content file)"
  shows "relatedLoop read text relatedNotes files =
           Inr (relatedNotes @
                map basename
                  (filter (\<lambda>file. js_gt (calculateSimilarity text (content file)) (3 / 10)) files))"
  using assms by (induction files arbitrary: relatedNotes) simp_all

lemma relatedLoop_read_error:
  assumes "read file = Inl e" and "\<forall>f \<in> set before. read f = Inr (content f)"
  shows "relatedLoop read text relatedNotes (before @ file # after) = Inl e"
  using assms by (induction before arbitrary: relatedNotes) simp_all

text \<open>The guard at the head of the function: with automatic backlinks switched off it
  returns before it lists the store.\<close>

lemma findRelatedNotes_disabled: "findRelatedNotes False files read text = Inr []"
  by (simp add: findRelatedNotes_def)

text \<open>
  C7: with automatic backlinks switched on and every document of the store readable,
  the similarity of each document's content with the text is computed, and the function
  returns the base names of exactly the documents whose score exceeds 3/10, in the order
  of the store; a score equal to 3/10 does not exceed it.
\<close>

theorem findRelatedNotes_threshold:
  assumes "\<forall>file \<in> set files. read file = Inr (content file)"
  shows "findRelatedNotes True files read text =
           Inr (map basename
                 (filter (\<lambda>file. js_gt (calculateSimilarity text (content file)) (3 / 10)) files)) \<and>
         \<not> js_gt (Num (3 / 10)) (3 / 10)"
proof
  from assms have "relatedLoop read text [] files =
      Inr ([] @ map basename
        (filter (\<lambda>file. js_gt (calculateSimilarity text (content file)) (3 / 10)) files))"
    by (rule relatedLoop_reads)
  then show "findRelatedNotes True files read text =
      Inr (map basename
        (filter (\<lambda>file. js_gt (calculateSimilarity text (content file)) (3 / 10)) files))"
    by (simp add: findRelatedNotes_def)
  show "\<not> js_gt (Num (3 / 10)) (3 / 10)"
    by simp
qed

theorem findRelatedNotes_threshold_witness:
  "calculateSimilarity ''a b c'' (vaultContent (vaultFiles ! 0)) = Num (3 / 10) \<and>
   findRelatedNotes True vaultFiles vaultRead ''a b c'' = Inr [''n2'', ''n3'']"
proof -
  have h: "\<forall>file \<in> set vaultFiles. vaultRead file = Inr (vaultContent file)"
    by (simp add: vaultRead_def)
  have s: "calculateSimilarity ''a b c'' (vaultContent (vaultFiles ! 0)) = Num (3 / 10)"
    by code_simp
  have m: "map basename
             (filter (\<lambda>file. js_gt (calculateSimilarity ''a b c'' (vaultContent file)) (3 / 10))
                vaultFiles) = [''n2'', ''n3'']"
    by code_simp
  from findRelatedNotes_threshold [OF h, of "''a b c''"]
  have "findRelatedNotes True vaultFiles vaultRead ''a b c'' =
        Inr (map basename
              (filter (\<lambda>file. js_gt (calculateSimilarity ''a b c'' (vaultContent file)) (3 / 10))
                 vaultFiles))"
    by (rule conjunct1)
  with s m show ?thesis
    by simp
qed

subsection \<open>Worked examples\<close>

text \<open>The response of a provider with the three sections, and the tags of a short
  note.\<close>

lemma parseLLMResponse_example:
  "parseLLMResponse
     (''TEXT:'' @ [CHR 0x0A] @ ''Hello world'' @ [CHR 0x0A, CHR 0x0A] @
      ''TAGS:'' @ [CHR 0x0A] @ ''greeting, demo'' @ [CHR 0x0A, CHR 0x0A] @
      ''SUMMARY:'' @ [CHR 0x0A] @ ''A greeting.'') =
   \<lparr>llm_text = ''Hello world'', llm_tags = Some [''greeting'', ''demo''],
    llm_summary = Some ''A greeting.'', llm_confidence = 9 / 10\<rparr>"
  by code_simp

lemma generateTags_example:
  "generateTags ''Buy milk and eggs tomorrow'' =
     [''milk'', ''milk-eggs'', ''milk-eggs-tomorrow'', ''eggs'', ''eggs-tomorrow'', ''tomorrow'']"
  by code_simp

lemma cleanupText_example:
  "cleanupText ''Buy milk and eggs tomorrow'' = ''Buy milk and eggs tomorrow''"
  by code_simp

end
